theory Spec2Isabelle
  imports Main "HOL-Library.Sublist"
begin

section \<open>Python strings and lists, as \<^verbatim>\<open>backend/main.py\<close> uses them\<close>

text \<open>
  A Python \<^verbatim>\<open>str\<close> is modelled as a \<^typ>\<open>string\<close>, one \<^typ>\<open>char\<close> per code point.
  A \<^typ>\<open>char\<close> has eight bits, so the model covers the texts whose code points are below
  256; \<^verbatim>\<open>str.isspace\<close> and \<^verbatim>\<open>str.lower\<close> are Python's on that range. All
  literals of the program that the model uses are ASCII.
\<close>

datatype py_error = IndexError | ValueError

text \<open>\<^verbatim>\<open>str(e)\<close> for the two exceptions the string and list operations can raise.\<close>

fun py_error_str :: "py_error \<Rightarrow> string" where
  "py_error_str IndexError = ''list index out of range''"
| "py_error_str ValueError = ''empty separator''"

text \<open>Sequencing of steps that may raise: the first exception ends the computation.\<close>

definition bind_err :: "'e + 'a \<Rightarrow> ('a \<Rightarrow> 'e + 'b) \<Rightarrow> 'e + 'b" where
  "bind_err m f = (case m of Inl e \<Rightarrow> Inl e | Inr x \<Rightarrow> f x)"

text \<open>\<^verbatim>\<open>xs[i]\<close> for a non-negative index literal.\<close>

definition index :: "'a list \<Rightarrow> nat \<Rightarrow> py_error + 'a" where
  "index xs i = (if i < length xs then Inr (xs ! i) else Inl IndexError)"

text \<open>\<^verbatim>\<open>c.isspace()\<close>: the white space that \<^verbatim>\<open>str.strip()\<close> removes.\<close>

definition isspace :: "char \<Rightarrow> bool" where
  "isspace c = (let n = (of_char c :: nat) in
     (9 \<le> n \<and> n \<le> 13) \<or> (28 \<le> n \<and> n \<le> 32) \<or> n = 133 \<or> n = 160)"

definition strip :: "string \<Rightarrow> string" where
  "strip s = rev (dropWhile isspace (rev (dropWhile isspace s)))"

definition lower_char :: "char \<Rightarrow> char" where
  "lower_char c = (let n = (of_char c :: nat) in
     if (65 \<le> n \<and> n \<le> 90) \<or> (192 \<le> n \<and> n \<le> 222 \<and> n \<noteq> 215)
     then char_of (n + 32) else c)"

definition lower :: "string \<Rightarrow> string" where
  "lower s = map lower_char s"

text \<open>\<^verbatim>\<open>s.find(sub)\<close>: the index of the leftmost occurrence, \<open>None\<close> for Python's -1.\<close>

fun find_str :: "string \<Rightarrow> string \<Rightarrow> nat option" where
  "find_str sub [] = (if sub = [] then Some 0 else None)"
| "find_str sub (c # cs) =
     (if prefix sub (c # cs) then Some 0 else map_option Suc (find_str sub cs))"

text \<open>\<^verbatim>\<open>sub in s\<close>.\<close>

definition contains :: "string \<Rightarrow> string \<Rightarrow> bool" where
  "contains sub s = (find_str sub s \<noteq> None)"

lemma find_bound: "find_str sub s = Some i \<Longrightarrow> i + length sub \<le> length s"
proof (induction s arbitrary: i)
  case Nil
  then show ?case by (simp split: if_splits)
next
  case (Cons c cs)
  show ?case
  proof (cases "prefix sub (c # cs)")
    case True
    then have "length sub \<le> length (c # cs)" by (rule prefix_length_le)
    with True Cons.prems show ?thesis by simp
  next
    case False
    with Cons.prems obtain j where "find_str sub cs = Some j" "i = Suc j" by auto
    with Cons.IH show ?thesis by auto
  qed
qed

text \<open>
  The loop of \<^verbatim>\<open>s.split(sep)\<close> for a non-empty separator: cut at the leftmost
  occurrence, go on after it. The pieces are the texts between the occurrences.
\<close>

function split_at :: "string \<Rightarrow> string \<Rightarrow> string list" where
  "split_at sep s =
     (case (if sep = [] then None else find_str sep s) of
        None \<Rightarrow> [s]
      | Some i \<Rightarrow> take i s # split_at sep (drop (i + length sep) s))"
  by pat_completeness auto
termination
proof (relation "measure (\<lambda>(sep, s). length s)")
  show "wf (measure (\<lambda>(sep, s). length s))" by simp
next
  fix sep s :: string and i
  assume "(if sep = [] then None else find_str sep s) = Some i"
  then have "sep \<noteq> []" and "find_str sep s = Some i" by (auto split: if_splits)
  with find_bound [of sep s i] have "0 < length sep" "i + length sep \<le> length s" by auto
  then show "((sep, drop (i + length sep) s), (sep, s)) \<in> measure (\<lambda>(sep, s). length s)"
    by (simp, arith)
qed

declare split_at.simps [simp del]

text \<open>\<^verbatim>\<open>s.split(sep)\<close>: an empty separator raises \<^verbatim>\<open>ValueError\<close>.\<close>

definition split_str :: "string \<Rightarrow> string \<Rightarrow> py_error + string list" where
  "split_str sep s = (if sep = [] then Inl ValueError else Inr (split_at sep s))"

text \<open>
  The loop of \<^verbatim>\<open>s.replace(old, new)\<close> for a non-empty \<^verbatim>\<open>old\<close>: every occurrence
  found from left to right, none overlapping an earlier one, gives way to \<^verbatim>\<open>new\<close>.
\<close>

function replace_at :: "string \<Rightarrow> string \<Rightarrow> string \<Rightarrow> string" where
  "replace_at old new s =
     (case (if old = [] then None else find_str old s) of
        None \<Rightarrow> s
      | Some i \<Rightarrow> take i s @ new @ replace_at old new (drop (i + length old) s))"
  by pat_completeness auto
termination
proof (relation "measure (\<lambda>(old, new, s). length s)")
  show "wf (measure (\<lambda>(old, new, s). length s))" by simp
next
  fix old new s :: string and i
  assume "(if old = [] then None else find_str old s) = Some i"
  then have "old \<noteq> []" and "find_str old s = Some i" by (auto split: if_splits)
  with find_bound [of old s i] have "0 < length old" "i + length old \<le> length s" by auto
  then show "((old, new, drop (i + length old) s), (old, new, s))
      \<in> measure (\<lambda>(old, new, s). length s)"
    by (simp, arith)
qed

declare replace_at.simps [simp del]

text \<open>
  \<^verbatim>\<open>s.replace(old, new)\<close>; with an empty \<^verbatim>\<open>old\<close> Python puts \<^verbatim>\<open>new\<close> before
  every character and at the end.
\<close>

definition replace_str :: "string \<Rightarrow> string \<Rightarrow> string \<Rightarrow> string" where
  "replace_str old new s =
     (if old = [] then new @ concat (map (\<lambda>c. c # new) s) else replace_at old new s)"


section \<open>The fragment extraction of \<^verbatim>\<open>generate_website\<close>\<close>

text \<open>The expression \<^verbatim>\<open>s.split(tag)[1].split("```")[0].strip()\<close>.\<close>

definition fence_body :: "string \<Rightarrow> string \<Rightarrow> py_error + string" where
  "fence_body tag s =
     bind_err (split_str tag s) (\<lambda>a.
     bind_err (index a 1) (\<lambda>b.
     bind_err (split_str ''```'' b) (\<lambda>c.
     bind_err (index c 0) (\<lambda>d.
     Inr (strip d)))))"

text \<open>
  The three-way choice made for each section: a language-tagged fence, else a plain
  fence, else the section as it is.
\<close>

definition from_section :: "string \<Rightarrow> string \<Rightarrow> py_error + string" where
  "from_section tag section =
     (if contains tag section then fence_body tag section
      else if contains ''```'' section then fence_body ''```'' section
      else Inr section)"

text \<open>
  The two sections of the marked format:
  \<^verbatim>\<open>parts = content.split("CSS:")\<close>,
  \<^verbatim>\<open>html_section = parts[0].replace("HTML:", "").strip()\<close>,
  \<^verbatim>\<open>css_section = parts[1].strip()\<close>.
\<close>

definition sections :: "string \<Rightarrow> py_error + (string \<times> string)" where
  "sections content =
     bind_err (split_str ''CSS:'' content) (\<lambda>parts.
     bind_err (index parts 0) (\<lambda>p0.
     bind_err (index parts 1) (\<lambda>p1.
     Inr (strip (replace_str ''HTML:'' '''' p0), strip p1))))"

text \<open>
  The parsing of \<^verbatim>\<open>content\<close> into \<^verbatim>\<open>(html, css)\<close>: the marked format when both
  markers occur, else a search of the whole text for tagged fences, with the whole text
  as markup when that finds none.
\<close>

definition extract_fragments :: "string \<Rightarrow> py_error + (string \<times> string)" where
  "extract_fragments content =
     (if contains ''HTML:'' content \<and> contains ''CSS:'' content then
        bind_err (sections content) (\<lambda>(html_section, css_section).
        bind_err (from_section ''```html'' html_section) (\<lambda>html.
        bind_err (from_section ''```css'' css_section) (\<lambda>css.
        Inr (html, css))))
      else
        bind_err (if contains ''```html'' content then fence_body ''```html'' content
              else Inr '''') (\<lambda>html.
        bind_err (if contains ''```css'' content then fence_body ''```css'' content
              else Inr '''') (\<lambda>css.
        Inr (if html = '''' then content else html, css))))"

section \<open>The request and the prompt\<close>

text \<open>
  The request body as the handler receives it: a missing \<^verbatim>\<open>style\<close> has been replaced
  by its default \<^verbatim>\<open>modern\<close> before the handler runs.
\<close>

record website_request =
  prompt :: string
  style :: string

record website_response =
  html :: string
  css :: string
  success :: bool
  message :: string

definition models_to_try :: "string list" where
  "models_to_try =
     [''gemini-2.0-flash-exp'',
      ''gemini-1.5-flash-latest'',
      ''gemini-1.5-flash'',
      ''gemini-1.5-pro-latest'']"

definition style_descriptions :: "string \<rightharpoonup> string" where
  "style_descriptions = map_of
     [(''modern'', ''with bold vibrant colors (#667eea to #764ba2 gradients), large typography, card-based layouts, lots of whitespace, glassmorphism effects''),
      (''minimal'', ''with elegant black and white palette, ultra-clean layout, generous negative space, sophisticated typography, accent color (#0066ff)''),
      (''professional'', ''with corporate blue gradients (#4facfe to #00f2fe), structured layout, polished cards, business-appropriate design''),
      (''creative'', ''with bold rainbow gradients (#f093fb to #f5576c), playful animations, asymmetric layouts, artistic flair, vibrant energy'')]"

text \<open>\<^verbatim>\<open>style_descriptions.get(request.style, '')\<close>.\<close>

definition style_desc :: "website_request \<Rightarrow> string" where
  "style_desc request =
     (case style_descriptions (style request) of None \<Rightarrow> '''' | Some d \<Rightarrow> d)"

text \<open>The f-string of \<^verbatim>\<open>user_prompt\<close>.\<close>

definition user_prompt :: "website_request \<Rightarrow> string" where
  "user_prompt request =
     ''Create a stunning '' @ style request @ '' style website '' @ style_desc request
     @ '': '' @ prompt request
     @ ''. Make it visually impressive with rich CSS styling, beautiful colors, and modern design. NO external images - use colored divs and gradients for visual elements.''"


section \<open>The loop over the candidate models\<close>

text \<open>
  An exception is known to the program by \<^verbatim>\<open>str(e)\<close> only. Reading
  \<^verbatim>\<open>response.text\<close> gives the text or raises. Exceptions and response objects are
  objects without \<^verbatim>\<open>__bool__\<close> and \<^verbatim>\<open>__len__\<close>, so they are true where the
  program tests them, and only \<^verbatim>\<open>None\<close> is false there.
\<close>

datatype py_exception = Exception (str: string)

datatype response = GenerateContentResponse (response_text: "py_exception + string")

datatype outcome = Returns response | Raises py_exception

text \<open>
  The provider stands for \<^verbatim>\<open>genai.GenerativeModel(...)\<close> followed by
  \<^verbatim>\<open>generate_content(...)\<close>: given the model name and the user prompt, in a state of
  its own, it returns a response or raises, and moves to a new state. The system
  instruction and the generation configuration are the same constants at every call.
\<close>

type_synonym 's provider = "string \<Rightarrow> string \<Rightarrow> 's \<Rightarrow> outcome \<times> 's"

text \<open>What the run prints, and the pause of \<^verbatim>\<open>time.sleep(0.5)\<close>, in their order.\<close>

datatype event =
    Print_trying string
  | Print_success string
  | Print_failed string string
  | Print_model_issue
  | Sleep
  | Print_content_length nat
  | Print_parsed_lengths nat nat
  | Print_error string

record 's run_state =
  last_error :: "py_exception option"
  response :: "response option"
  trace :: "event list"
  provider_state :: 's

text \<open>
  How the \<^verbatim>\<open>for\<close> loop ends: by \<^verbatim>\<open>break\<close>, by running out of candidates (the
  \<^verbatim>\<open>else\<close> clause of the loop then runs), or by \<^verbatim>\<open>raise e\<close>.
\<close>

datatype loop_exit = Break | Exhausted | Raised py_exception

definition transient_keywords :: "string list" where
  "transient_keywords = [''503'', ''overloaded'', ''unavailable'', ''not found'', ''404'']"

text \<open>\<^verbatim>\<open>any(keyword in error_str.lower() for keyword in [...])\<close>.\<close>

definition is_transient :: "string \<Rightarrow> bool" where
  "is_transient error_str =
     list_ex (\<lambda>keyword. contains keyword (lower error_str)) transient_keywords"

fun try_models :: "'s provider \<Rightarrow> string \<Rightarrow> string list \<Rightarrow> 's run_state
    \<Rightarrow> loop_exit \<times> 's run_state" where
  "try_models P up [] st = (Exhausted, st)"
| "try_models P up (model_name # rest) st =
     (let st1 = st\<lparr>trace := trace st @ [Print_trying model_name]\<rparr> in
      case P model_name up (provider_state st1) of
        (Returns r, ps) \<Rightarrow>
          (Break, st1\<lparr>response := Some r, provider_state := ps,
                       trace := trace st1 @ [Print_success model_name]\<rparr>)
      | (Raises e, ps) \<Rightarrow>
          (let error_str = str e;
               st2 = st1\<lparr>provider_state := ps, last_error := Some e,
                           trace := trace st1 @ [Print_failed model_name error_str]\<rparr>
           in if is_transient error_str
              then try_models P up rest
                     (st2\<lparr>trace := trace st2 @ [Print_model_issue, Sleep]\<rparr>)
              else (Raised e, st2)))"

text \<open>
  A failed request: an \<^verbatim>\<open>HTTPException\<close> with its status code and detail, or the
  provider's exception leaving the handler uncaught.
\<close>

datatype failure = HTTPException nat string | Uncaught py_exception

definition initial_state :: "'s \<Rightarrow> 's run_state" where
  "initial_state ps =
     \<lparr>last_error = None, response = None, trace = [], provider_state = ps\<rparr>"

text \<open>\<^verbatim>\<open>if not response: raise HTTPException(status_code=500, ...)\<close>.\<close>

definition check_response :: "'s run_state \<Rightarrow> (failure + response) \<times> 's run_state" where
  "check_response st =
     (case response st of
        None \<Rightarrow> (Inl (HTTPException 500 ''Failed to generate content''), st)
      | Some r \<Rightarrow> (Inr r, st))"

text \<open>The loop with its \<^verbatim>\<open>else\<close> clause and the test of \<^verbatim>\<open>response\<close> after it.\<close>

definition resolve :: "'s provider \<Rightarrow> string \<Rightarrow> 's \<Rightarrow> (failure + response) \<times> 's run_state" where
  "resolve P up ps =
     (case try_models P up models_to_try (initial_state ps) of
        (Raised e, st) \<Rightarrow> (Inl (Uncaught e), st)
      | (Break, st) \<Rightarrow> check_response st
      | (Exhausted, st) \<Rightarrow>
          (case last_error st of
             Some e \<Rightarrow>
               (Inl (HTTPException 503
                  (''All Gemini models are currently unavailable. Please try again in a few moments. Last error: ''
                   @ str e)), st)
           | None \<Rightarrow> check_response st))"

text \<open>
  The \<^verbatim>\<open>try\<close> block after the loop: read the text, parse it, build the response; any
  exception there becomes a 500 with its text.
\<close>

definition respond :: "response \<Rightarrow> event list \<Rightarrow> (failure + website_response) \<times> event list" where
  "respond r tr =
     (case response_text r of
        Inl e \<Rightarrow> (Inl (HTTPException 500 (str e)), tr @ [Print_error (str e)])
      | Inr content \<Rightarrow>
          (let tr1 = tr @ [Print_content_length (length content)] in
           case extract_fragments content of
             Inl err \<Rightarrow>
               (Inl (HTTPException 500 (py_error_str err)),
                tr1 @ [Print_error (py_error_str err)])
           | Inr (html_str, css_str) \<Rightarrow>
               (Inr \<lparr>html = html_str, css = css_str, success = True,
                     message = ''Website generated successfully''\<rparr>,
                tr1 @ [Print_parsed_lengths (length html_str) (length css_str)])))"

definition generate_website :: "'s provider \<Rightarrow> website_request \<Rightarrow> 's
    \<Rightarrow> (failure + website_response) \<times> 's run_state" where
  "generate_website P request ps =
     (case resolve P (user_prompt request) ps of
        (Inl f, st) \<Rightarrow> (Inl f, st)
      | (Inr r, st) \<Rightarrow>
          (case respond r (trace st) of (res, tr) \<Rightarrow> (res, st\<lparr>trace := tr\<rparr>)))"

text \<open>The model names of the attempts that a trace records.\<close>

fun attempts :: "event list \<Rightarrow> string list" where
  "attempts [] = []"
| "attempts (Print_trying m # evs) = m # attempts evs"
| "attempts (ev # evs) = attempts evs"

text \<open>
  The documented reply: the marker \<^verbatim>\<open>HTML:\<close>, a fence tagged \<^verbatim>\<open>html\<close> around
  \<open>H\<close>, the marker \<^verbatim>\<open>CSS:\<close>, a fence tagged \<^verbatim>\<open>css\<close> around \<open>C\<close>, with
  white space \<open>w1\<close> to \<open>w4\<close> between and after them.
\<close>

definition blank :: "string \<Rightarrow> bool" where
  "blank w = list_all isspace w"

definition documented_format ::
    "string \<Rightarrow> string \<Rightarrow> string \<Rightarrow> string \<Rightarrow> string \<Rightarrow> string \<Rightarrow> string" where
  "documented_format w1 H w2 w3 C w4 =
     ''HTML:'' @ w1 @ ''```html'' @ H @ ''```'' @ w2
     @ ''CSS:'' @ w3 @ ''```css'' @ C @ ''```'' @ w4"

text \<open>
  A fenced block with the opening fence \<open>tag\<close>, in the words of the specification: the
  text holds \<open>tag\<close> and a closing fence \<^verbatim>\<open>```\<close> somewhere behind it. The program has no
  such test; it looks for the opening fence only.
\<close>

definition tagged_fenced_block :: "string \<Rightarrow> string \<Rightarrow> bool" where
  "tagged_fenced_block tag s =
     (case find_str tag s of
        None \<Rightarrow> False
      | Some i \<Rightarrow> contains ''```'' (drop (i + length tag) s))"

text \<open>
  A proof device, not part of the program: no occurrence of \<open>sub\<close> begins inside \<open>A\<close>,
  whatever text follows \<open>A\<close>; the search goes on behind \<open>A\<close>.
\<close>

definition no_start :: "string \<Rightarrow> string \<Rightarrow> bool" where
  "no_start sub A \<longleftrightarrow>
     (\<forall>t. find_str sub (A @ t) = map_option ((+) (length A)) (find_str sub t))"

text \<open>
  Three providers to run the loop on. Their state counts the calls made. The first
  answers for \<^verbatim>\<open>gemini-1.5-flash\<close> only and is unavailable for every other model, the
  second knows no model, the third refuses the API key.
\<close>

definition third_answers :: "nat provider" where
  "third_answers model_name up n =
     (if model_name = ''gemini-1.5-flash''
      then (Returns (GenerateContentResponse (Inr ''<p>hi</p>'')), Suc n)
      else (Raises (Exception ''503 Service Unavailable''), Suc n))"

definition unknown_models :: "nat provider" where
  "unknown_models model_name up n =
     (Raises (Exception (''404 models/'' @ model_name @ '' is not found'')), Suc n)"

definition bad_key :: "nat provider" where
  "bad_key model_name up n = (Raises (Exception ''400 API key not valid''), Suc n)"


section \<open>Facts about searching, splitting and replacing\<close>

lemma find_str_decomp:
  "find_str sub s = Some i \<Longrightarrow> s = take i s @ sub @ drop (i + length sub) s"
proof (induction s arbitrary: i)
  case Nil
  then show ?case by (simp split: if_splits)
next
  case (Cons c cs)
  show ?case
  proof (cases "prefix sub (c # cs)")
    case True
    with Cons.prems have "i = 0" by simp
    moreover from True obtain zs where "c # cs = sub @ zs" by (auto simp: prefix_def)
    ultimately show ?thesis by simp
  next
    case False
    with Cons.prems obtain j where j: "find_str sub cs = Some j" "i = Suc j" by auto
    from Cons.IH [OF j(1)] j(2) show ?thesis by simp
  qed
qed

lemma find_str_here: "find_str sub (sub @ t) = Some 0"
proof (cases "sub @ t")
  case Nil
  then show ?thesis by simp
next
  case (Cons c cs)
  have "prefix sub (sub @ t)" by simp
  with Cons show ?thesis by simp
qed

lemma find_str_occurs: "find_str sub (pre @ sub @ post) \<noteq> None"
  by (induction pre) (auto simp: find_str_here)

lemma contains_iff: "contains sub s \<longleftrightarrow> (\<exists>pre post. s = pre @ sub @ post)"
proof
  assume "contains sub s"
  then obtain i where "find_str sub s = Some i" by (auto simp: contains_def)
  from find_str_decomp [OF this] show "\<exists>pre post. s = pre @ sub @ post" by blast
next
  assume "\<exists>pre post. s = pre @ sub @ post"
  then show "contains sub s" using find_str_occurs unfolding contains_def by blast
qed

lemma split_at_none: "find_str sep s = None \<Longrightarrow> split_at sep s = [s]"
  by (subst split_at.simps) simp

lemma split_at_some:
  "sep \<noteq> [] \<Longrightarrow> find_str sep s = Some i \<Longrightarrow>
   split_at sep s = take i s # split_at sep (drop (i + length sep) s)"
  by (subst split_at.simps) simp

lemma split_at_not_Nil: "split_at sep s \<noteq> []"
  by (subst split_at.simps) (simp split: option.splits)

lemma split_at_two: "sep \<noteq> [] \<Longrightarrow> contains sep s \<Longrightarrow> 2 \<le> length (split_at sep s)"
proof -
  assume sep: "sep \<noteq> []" and "contains sep s"
  then obtain i where i: "find_str sep s = Some i" by (auto simp: contains_def)
  have "0 < length (split_at sep (drop (i + length sep) s))"
    using split_at_not_Nil by simp
  with split_at_some [OF sep i] show ?thesis by (simp add: Suc_le_eq)
qed

lemma replace_at_none: "find_str old s = None \<Longrightarrow> replace_at old new s = s"
  by (subst replace_at.simps) simp

lemma replace_at_some:
  "old \<noteq> [] \<Longrightarrow> find_str old s = Some i \<Longrightarrow>
   replace_at old new s = take i s @ new @ replace_at old new (drop (i + length old) s)"
  by (subst replace_at.simps) simp

lemma fence_body_total:
  assumes "tag \<noteq> []" "contains tag s"
  shows "\<exists>x. fence_body tag s = Inr x"
proof -
  from split_at_two [OF assms] have "1 < length (split_at tag s)" by simp
  moreover have "0 < length (split_at ''```'' b)" for b
    using split_at_not_Nil [of "''```''" b] by simp
  ultimately show ?thesis
    using assms(1) by (simp add: fence_body_def split_str_def bind_err_def index_def)
qed

lemma guarded_fence_body_total:
  "tag \<noteq> [] \<Longrightarrow> \<exists>x. (if contains tag s then fence_body tag s else Inr d) = Inr x"
  using fence_body_total [of tag s] by (cases "contains tag s") simp_all

lemma from_section_total: "tag \<noteq> [] \<Longrightarrow> \<exists>x. from_section tag s = Inr x"
  using fence_body_total [of tag s] fence_body_total [of "''```''" s]
  by (auto simp: from_section_def)

lemma sections_total:
  assumes "contains ''CSS:'' content"
  shows "\<exists>a b. sections content = Inr (a, b)"
proof -
  from split_at_two [OF _ assms] have "1 < length (split_at ''CSS:'' content)" by simp
  then show ?thesis
    by (auto simp: sections_def split_str_def bind_err_def index_def)
qed

lemma index_split_at_1:
  assumes "sep \<noteq> []" "find_str sep s = Some i"
  shows "index (split_at sep s) (Suc 0) =
     Inr (case find_str sep (drop (i + length sep) s) of
            None \<Rightarrow> drop (i + length sep) s
          | Some j \<Rightarrow> take j (drop (i + length sep) s))"
proof (cases "find_str sep (drop (i + length sep) s)")
  case None
  with assms show ?thesis
    by (simp add: split_at_some split_at_none index_def)
next
  case (Some j)
  with assms show ?thesis
    by (simp add: split_at_some [of sep s i]
        split_at_some [of sep "drop (i + length sep) s" j] index_def)
qed

lemma index_split_at_0:
  "index (split_at sep s) 0 =
     Inr (case (if sep = [] then None else find_str sep s) of None \<Rightarrow> s | Some i \<Rightarrow> take i s)"
  by (subst split_at.simps) (simp add: index_def split: option.splits)

lemma contains_Cons: "contains sub (a # s) \<longleftrightarrow> prefix sub (a # s) \<or> contains sub s"
  by (simp add: contains_def)

lemma prefix_stops:
  assumes "prefix sub (xs @ c # t)" and "c \<notin> set sub"
  shows "prefix sub xs"
proof -
  from assms(1) consider "prefix sub xs" | us where "sub = xs @ us" "prefix us (c # t)"
    by (auto simp: prefix_append)
  then show ?thesis
  proof cases
    case 1
    then show ?thesis .
  next
    case 2
    with assms(2) have "us = []" by (cases us) auto
    with 2 show ?thesis by simp
  qed
qed

lemma no_start_append:
  assumes "no_start sub X" and "no_start sub Y"
  shows "no_start sub (X @ Y)"
  unfolding no_start_def
proof
  fix t
  from assms have "find_str sub ((X @ Y) @ t)
      = map_option ((+) (length X)) (map_option ((+) (length Y)) (find_str sub t))"
    by (simp add: no_start_def)
  then show "find_str sub ((X @ Y) @ t) = map_option ((+) (length (X @ Y))) (find_str sub t)"
    by (cases "find_str sub t") simp_all
qed

lemma no_start_foreign:
  assumes "sub \<noteq> []" and "hd sub \<notin> set w"
  shows "no_start sub w"
  unfolding no_start_def
proof
  fix t
  from assms show "find_str sub (w @ t) = map_option ((+) (length w)) (find_str sub t)"
  proof (induction w)
    case Nil
    then show ?case by (simp add: option.map_ident)
  next
    case (Cons a w)
    then have "\<not> prefix sub (a # w @ t)" by (cases sub) auto
    with Cons show ?case by (simp add: option.map_comp comp_def)
  qed
qed

lemma no_start_clean:
  assumes "\<not> contains sub A" and "c \<notin> set sub"
  shows "no_start sub (A @ [c])"
  unfolding no_start_def
proof
  fix t
  from assms(1) have ne: "sub \<noteq> []" by (cases A) (auto simp: contains_def)
  from assms(1) show "find_str sub ((A @ [c]) @ t)
      = map_option ((+) (length (A @ [c]))) (find_str sub t)"
  proof (induction A)
    case Nil
    from ne assms(2) have "\<not> prefix sub (c # t)" by (cases sub) auto
    then show ?case by simp
  next
    case (Cons a A)
    then have np: "\<not> prefix sub (a # A)" and nc: "\<not> contains sub A"
      by (simp_all add: contains_Cons)
    have "\<not> prefix sub ((a # A) @ c # t)"
      using prefix_stops [OF _ assms(2)] np by blast
    with Cons.IH [OF nc] show ?case by (simp add: option.map_comp comp_def)
  qed
qed

lemma find_str_after: "no_start sub A \<Longrightarrow> find_str sub (A @ sub @ B) = Some (length A)"
  by (simp add: no_start_def find_str_here)

lemma find_str_none: "sub \<noteq> [] \<Longrightarrow> no_start sub A \<Longrightarrow> find_str sub A = None"
  using no_start_def [of sub A] by (auto dest: spec [of _ "[]"])

lemma find_str_least: "find_str sub (pre @ sub @ post) = Some n \<Longrightarrow> n \<le> length pre"
proof (induction pre arbitrary: n)
  case Nil
  then show ?case by (simp add: find_str_here)
next
  case (Cons a pre)
  then show ?case by (auto split: if_splits)
qed

lemma split_at_two_parts:
  assumes "sep \<noteq> []" "no_start sep A" "find_str sep B = None"
  shows "split_at sep (A @ sep @ B) = [A, B]"
  using assms split_at_some [OF assms(1) find_str_after [OF assms(2), of B]]
  by (simp add: split_at_none)

lemma blank_foreign: "blank w \<Longrightarrow> \<not> isspace c \<Longrightarrow> c \<notin> set w"
  by (auto simp: blank_def list_all_iff)

lemma strip_blank_around:
  assumes "blank w1" "blank w2" "s \<noteq> []" "\<not> isspace (hd s)" "\<not> isspace (last s)"
  shows "strip (w1 @ s @ w2) = s"
proof -
  from assms(3,4) have a: "dropWhile isspace s = s" by (cases s) auto
  from assms(3,5) have b: "dropWhile isspace (rev s) = rev s"
    by (cases s rule: rev_cases) auto
  from assms(1) have "dropWhile isspace (w1 @ s @ w2) = dropWhile isspace (s @ w2)"
    by (simp add: blank_def list_all_iff dropWhile_append2)
  also from assms(3,4) have "\<dots> = s @ w2" by (cases s) auto
  finally have "strip (w1 @ s @ w2) = rev (dropWhile isspace (rev w2 @ rev s))"
    by (simp add: strip_def)
  also from assms(2) have "\<dots> = rev (dropWhile isspace (rev s))"
    using dropWhile_append2 [of "rev w2" isspace "rev s"]
    by (simp add: blank_def list_all_iff)
  finally show ?thesis by (simp add: b)
qed

lemma first_fence:
  assumes "\<not> contains ''```'' H" and "\<not> suffix ''`'' H"
  shows "find_str ''```'' (H @ ''```'' @ t) = Some (length H)"
proof (cases H rule: rev_cases)
  case Nil
  then show ?thesis using find_str_here [of "''```''" t] by simp
next
  case (snoc H' x)
  with assms(2) have x: "x \<notin> set ''```''" by (simp add: suffix_def)
  have "\<not> contains ''```'' H'"
  proof
    assume "contains ''```'' H'"
    then obtain pre post where "H' = pre @ ''```'' @ post" by (auto simp: contains_iff)
    with snoc have "H = pre @ ''```'' @ (post @ [x])" by simp
    then have "contains ''```'' H" unfolding contains_iff by blast
    with assms(1) show False by contradiction
  qed
  from no_start_clean [OF this x] snoc have "no_start ''```'' H" by simp
  then show ?thesis by (rule find_str_after)
qed


lemma find_str_decomp_ex:
  assumes "find_str sub s = Some i"
  shows "\<exists>pre post. s = pre @ sub @ post \<and> length pre = i"
proof -
  from find_bound [OF assms] have "length (take i s) = i" by simp
  with find_str_decomp [OF assms] show ?thesis by blast
qed

lemma no_start_fenced:
  assumes "sub \<noteq> []" and "hd sub \<notin> set w1" and "hd sub \<notin> set w2"
    and "hd sub \<notin> set tag" and "hd sub \<noteq> CHR 0x60" and "CHR 0x60 \<notin> set sub"
    and "\<not> contains sub X"
  shows "no_start sub (w1 @ tag @ X @ ''```'' @ w2)"
proof -
  have a: "no_start sub w1" using assms(1,2) by (rule no_start_foreign)
  have b: "no_start sub tag" using assms(1,4) by (rule no_start_foreign)
  have c: "no_start sub (X @ ''`'')" using assms(7,6) by (rule no_start_clean)
  have d: "no_start sub ''``''" using assms(1,5) by (intro no_start_foreign) simp_all
  have e: "no_start sub w2" using assms(1,3) by (rule no_start_foreign)
  have "no_start sub (w1 @ tag @ (X @ ''`'') @ ''``'' @ w2)"
    by (rule no_start_append [OF a no_start_append [OF b
          no_start_append [OF c no_start_append [OF d e]]]])
  then show ?thesis by simp
qed

lemma fence_body_exact:
  assumes tag: "tag = ''```'' @ lang" "lang \<noteq> []"
    and H: "\<not> contains ''```'' H" "\<not> suffix ''`'' H"
  shows "fence_body tag (tag @ H @ ''```'') = Inr (strip H)"
proof -
  from tag have ne: "tag \<noteq> []" by simp
  have f0: "find_str tag (tag @ H @ ''```'') = Some 0" by (rule find_str_here)
  have ff: "find_str ''```'' (H @ ''```'') = Some (length H)"
    using first_fence [OF H, of "[]"] by simp
  have fn: "find_str tag (H @ ''```'') = None"
  proof (rule ccontr)
    assume "find_str tag (H @ ''```'') \<noteq> None"
    then obtain j where j: "find_str tag (H @ ''```'') = Some j" by auto
    from find_bound [OF j] have b: "j + length tag \<le> length H + 3" by simp
    from find_str_decomp_ex [OF j] obtain pre post
      where d: "H @ ''```'' = pre @ tag @ post" and l: "length pre = j" by blast
    from d tag(1) have "H @ ''```'' = pre @ ''```'' @ (lang @ post)" by simp
    with ff have "find_str ''```'' (pre @ ''```'' @ (lang @ post)) = Some (length H)"
      by (simp only:)
    from find_str_least [OF this] l have "length H \<le> j" by simp
    with b tag show False by (cases lang) simp_all
  qed
  have "split_at tag (tag @ H @ ''```'') = [[], H @ ''```'']"
    using split_at_some [OF ne f0] fn by (simp add: split_at_none)
  moreover have "split_at ''```'' (H @ ''```'') = H # split_at ''```'' []"
    using split_at_some [OF _ ff] by simp
  ultimately show ?thesis
    using ne by (simp add: fence_body_def split_str_def bind_err_def index_def)
qed

lemma sections_split:
  assumes "contains ''HTML:'' content" and "contains ''CSS:'' content"
  shows "\<exists>i. find_str ''CSS:'' content = Some i
     \<and> content = take i content @ ''CSS:'' @ drop (i + 4) content
     \<and> sections content =
         Inr (strip (replace_str ''HTML:'' [] (take i content)),
              strip (case find_str ''CSS:'' (drop (i + 4) content) of
                       None \<Rightarrow> drop (i + 4) content
                     | Some j \<Rightarrow> take j (drop (i + 4) content)))
     \<and> (\<not> contains ''CSS:'' (drop (i + 4) content) \<longrightarrow>
          split_str ''CSS:'' content = Inr [take i content, drop (i + 4) content])"
proof -
  from assms(2) obtain i where i: "find_str ''CSS:'' content = Some i"
    by (auto simp: contains_def)
  have len: "length ''CSS:'' = 4" by simp
  have d: "content = take i content @ ''CSS:'' @ drop (i + 4) content"
    using find_str_decomp [OF i] unfolding len .
  have p0: "index (split_at ''CSS:'' content) 0 = Inr (take i content)"
    using i by (simp add: index_split_at_0)
  have p1: "index (split_at ''CSS:'' content) (Suc 0) =
      Inr (case find_str ''CSS:'' (drop (i + 4) content) of
             None \<Rightarrow> drop (i + 4) content
           | Some j \<Rightarrow> take j (drop (i + 4) content))"
    using index_split_at_1 [OF _ i, unfolded len] by simp
  have s: "sections content =
         Inr (strip (replace_str ''HTML:'' [] (take i content)),
              strip (case find_str ''CSS:'' (drop (i + 4) content) of
                       None \<Rightarrow> drop (i + 4) content
                     | Some j \<Rightarrow> take j (drop (i + 4) content)))"
    by (simp add: sections_def split_str_def bind_err_def p0 p1)
  have two: "split_str ''CSS:'' content = Inr [take i content, drop (i + 4) content]"
    if "\<not> contains ''CSS:'' (drop (i + 4) content)"
    using that split_at_some [OF _ i, unfolded len]
    by (simp add: split_str_def contains_def split_at_none)
  from i d s two show ?thesis by blast
qed

lemma tagged_fenced_block_iff:
  "tagged_fenced_block tag s \<longleftrightarrow> (\<exists>pre body post. s = pre @ tag @ body @ ''```'' @ post)"
proof
  assume "tagged_fenced_block tag s"
  then obtain i where i: "find_str tag s = Some i"
    and c: "contains ''```'' (drop (i + length tag) s)"
    by (auto simp: tagged_fenced_block_def split: option.splits)
  from c obtain body post where "drop (i + length tag) s = body @ ''```'' @ post"
    unfolding contains_iff by blast
  with find_str_decomp [OF i] have "s = take i s @ tag @ body @ ''```'' @ post" by simp
  then show "\<exists>pre body post. s = pre @ tag @ body @ ''```'' @ post" by blast
next
  assume "\<exists>pre body post. s = pre @ tag @ body @ ''```'' @ post"
  then obtain pre body post where s: "s = pre @ tag @ body @ ''```'' @ post" by blast
  define rest where "rest = body @ ''```'' @ post"
  from s have s': "s = pre @ tag @ rest" by (simp add: rest_def)
  then have "find_str tag s \<noteq> None" using find_str_occurs [of tag pre rest] by simp
  then obtain i where i: "find_str tag s = Some i" by auto
  with s' have "i \<le> length pre" using find_str_least [of tag pre rest i] by simp
  then obtain k where k: "length pre = i + k" using le_Suc_ex by blast
  from s' have "drop (length pre + length tag) s = rest" by simp
  with k have "drop k (drop (i + length tag) s) = rest" by (simp add: ac_simps)
  then have "drop (i + length tag) s = take k (drop (i + length tag) s) @ rest"
    by (metis append_take_drop_id)
  then have "drop (i + length tag) s
      = (take k (drop (i + length tag) s) @ body) @ ''```'' @ post"
    by (simp add: rest_def)
  then have "contains ''```'' (drop (i + length tag) s)" unfolding contains_iff by blast
  with i show "tagged_fenced_block tag s" by (simp add: tagged_fenced_block_def)
qed


section \<open>Facts about the loop\<close>

lemma attempts_append: "attempts (xs @ ys) = attempts xs @ attempts ys"
  by (induction xs rule: attempts.induct) simp_all

lemma try_models_Cons_returns:
  assumes "P m up (provider_state st) = (Returns r, ps')"
  shows "try_models P up (m # rest) st =
     (Break, st\<lparr>response := Some r, provider_state := ps',
                 trace := trace st @ [Print_trying m, Print_success m]\<rparr>)"
  using assms by simp

lemma try_models_Cons_fatal:
  assumes "P m up (provider_state st) = (Raises e, ps')" and "\<not> is_transient (str e)"
  shows "try_models P up (m # rest) st =
     (Raised e, st\<lparr>provider_state := ps', last_error := Some e,
                    trace := trace st @ [Print_trying m, Print_failed m (str e)]\<rparr>)"
  using assms by simp

lemma try_models_Cons_transient:
  assumes "P m up (provider_state st) = (Raises e, ps')" and "is_transient (str e)"
  shows "try_models P up (m # rest) st =
     try_models P up rest
       (st\<lparr>provider_state := ps', last_error := Some e,
           trace := trace st @ [Print_trying m, Print_failed m (str e),
                                Print_model_issue, Sleep]\<rparr>)"
  using assms by simp

lemma try_models_cases:
  obtains (returns) r ps' where "P m up (provider_state st) = (Returns r, ps')"
  | (fatal) e ps' where "P m up (provider_state st) = (Raises e, ps')" "\<not> is_transient (str e)"
  | (transient) e ps' where "P m up (provider_state st) = (Raises e, ps')" "is_transient (str e)"
proof (cases "P m up (provider_state st)")
  case (Pair out ps')
  then show ?thesis by (cases out) (auto intro: that)
qed

declare try_models.simps(2) [simp del]

lemma try_models_trace:
  "try_models P up ms st = (ex, st') \<Longrightarrow>
   \<exists>evs. trace st' = trace st @ evs \<and> prefix (attempts evs) ms"
proof (induction ms arbitrary: st)
  case Nil
  then show ?case by simp
next
  case (Cons m rest)
  show ?case
  proof (cases rule: try_models_cases [of P m up st])
    case (returns r ps')
    with Cons.prems show ?thesis by (auto simp: try_models_Cons_returns)
  next
    case (fatal e ps')
    with Cons.prems show ?thesis by (auto simp: try_models_Cons_fatal)
  next
    case (transient e ps')
    with Cons.prems have "try_models P up rest
       (st\<lparr>provider_state := ps', last_error := Some e,
           trace := trace st @ [Print_trying m, Print_failed m (str e),
                                Print_model_issue, Sleep]\<rparr>) = (ex, st')"
      by (simp add: try_models_Cons_transient)
    from Cons.IH [OF this] obtain evs where
      "trace st' = trace st @ [Print_trying m, Print_failed m (str e),
                                Print_model_issue, Sleep] @ evs"
      "prefix (attempts evs) rest" by auto
    then show ?thesis by (auto simp: attempts_append)
  qed
qed

lemma try_models_fatal_last:
  "try_models P up ms st = (ex, st') \<Longrightarrow> trace st' = trace st @ evs \<Longrightarrow>
   Print_failed m err \<in> set evs \<Longrightarrow> \<not> is_transient err \<Longrightarrow>
   ex = Raised (Exception err) \<and> (\<exists>pre. evs = pre @ [Print_trying m, Print_failed m err])"
proof (induction ms arbitrary: st evs)
  case Nil
  then show ?case by simp
next
  case (Cons m' rest)
  show ?case
  proof (cases rule: try_models_cases [of P m' up st])
    case (returns r ps')
    with Cons.prems show ?thesis by (auto simp: try_models_Cons_returns)
  next
    case (fatal e ps')
    with Cons.prems show ?thesis
      by (cases e) (auto simp: try_models_Cons_fatal)
  next
    case (transient e ps')
    let ?st2 = "st\<lparr>provider_state := ps', last_error := Some e,
           trace := trace st @ [Print_trying m', Print_failed m' (str e),
                                Print_model_issue, Sleep]\<rparr>"
    from transient Cons.prems(1) have run: "try_models P up rest ?st2 = (ex, st')"
      by (simp add: try_models_Cons_transient)
    from try_models_trace [OF run] obtain evs' where
      evs': "trace st' = trace ?st2 @ evs'" by auto
    with Cons.prems(2) have evs: "evs = [Print_trying m', Print_failed m' (str e),
                                Print_model_issue, Sleep] @ evs'" by simp
    with Cons.prems(3,4) transient(2) have "Print_failed m err \<in> set evs'" by auto
    from Cons.IH [OF run evs' this Cons.prems(4)] evs show ?thesis by auto
  qed
qed

lemma try_models_exits:
  "try_models P up ms st = (ex, st') \<Longrightarrow>
     (ex = Break \<longrightarrow> response st' \<noteq> None)
   \<and> (\<forall>e. ex = Raised e \<longrightarrow> \<not> is_transient (str e) \<and> last_error st' = Some e)
   \<and> (ex = Exhausted \<longrightarrow>
        (if ms = [] then st' = st
         else \<exists>e. last_error st' = Some e \<and> is_transient (str e)))"
proof (induction ms arbitrary: st)
  case Nil
  then show ?case by auto
next
  case (Cons m rest)
  show ?case
  proof (cases rule: try_models_cases [of P m up st])
    case (returns r ps')
    with Cons.prems show ?thesis by (auto simp: try_models_Cons_returns)
  next
    case (fatal e ps')
    with Cons.prems show ?thesis by (auto simp: try_models_Cons_fatal)
  next
    case (transient e ps')
    let ?st2 = "st\<lparr>provider_state := ps', last_error := Some e,
           trace := trace st @ [Print_trying m, Print_failed m (str e),
                                Print_model_issue, Sleep]\<rparr>"
    from transient Cons.prems(1) have run: "try_models P up rest ?st2 = (ex, st')"
      by (simp add: try_models_Cons_transient)
    from Cons.IH [OF run] transient(2) show ?thesis
      by (cases "rest = []") auto
  qed
qed

lemma resolve_state:
  "snd (resolve P up ps) = snd (try_models P up models_to_try (initial_state ps))"
  by (simp add: resolve_def check_response_def
      split: prod.splits loop_exit.splits option.splits)

lemma contains_append: "contains sub (pre @ sub)"
  using contains_iff [of sub "pre @ sub"] by (metis append_Nil2)

lemma generate_website_failure:
  assumes "fst (resolve P (user_prompt request) ps) = Inl f"
  shows "fst (generate_website P request ps) = Inl f"
  using assms by (cases "resolve P (user_prompt request) ps") (simp add: generate_website_def)


section \<open>The order of the attempts\<close>

text \<open>
  C1: the candidates are attempted strictly in the declared order. For every provider the
  attempts that a run records are a prefix of the four model names as declared. When the
  provider fails the first two candidates with transient errors and answers the third,
  the run makes exactly these three attempts in that order, pauses after each failure,
  and the request is answered from the third candidate's response.
\<close>

theorem candidates_tried_in_order:
  "prefix (attempts (trace (snd (resolve P up ps))))
     [''gemini-2.0-flash-exp'', ''gemini-1.5-flash-latest'', ''gemini-1.5-flash'',
      ''gemini-1.5-pro-latest'']
   \<and> (P ''gemini-2.0-flash-exp'' up ps = (Raises e1, ps1) \<and> is_transient (str e1)
      \<and> P ''gemini-1.5-flash-latest'' up ps1 = (Raises e2, ps2) \<and> is_transient (str e2)
      \<and> P ''gemini-1.5-flash'' up ps2 = (Returns r, ps3)
      \<longrightarrow> fst (resolve P up ps) = Inr r
        \<and> trace (snd (resolve P up ps)) =
            [Print_trying ''gemini-2.0-flash-exp'',
             Print_failed ''gemini-2.0-flash-exp'' (str e1), Print_model_issue, Sleep,
             Print_trying ''gemini-1.5-flash-latest'',
             Print_failed ''gemini-1.5-flash-latest'' (str e2), Print_model_issue, Sleep,
             Print_trying ''gemini-1.5-flash'', Print_success ''gemini-1.5-flash'']
        \<and> attempts (trace (snd (resolve P up ps))) =
            [''gemini-2.0-flash-exp'', ''gemini-1.5-flash-latest'', ''gemini-1.5-flash'']
        \<and> (\<forall>request. user_prompt request = up \<longrightarrow>
              fst (generate_website P request ps) =
              fst (respond r (trace (snd (resolve P up ps))))))"
proof (intro conjI impI)
  obtain ex st where run: "try_models P up models_to_try (initial_state ps) = (ex, st)"
    by (cases "try_models P up models_to_try (initial_state ps)")
  from try_models_trace [OF run] have "prefix (attempts (trace st)) models_to_try"
    by (auto simp: initial_state_def)
  with run show "prefix (attempts (trace (snd (resolve P up ps))))
     [''gemini-2.0-flash-exp'', ''gemini-1.5-flash-latest'', ''gemini-1.5-flash'',
      ''gemini-1.5-pro-latest'']"
    by (simp add: resolve_state models_to_try_def)
next
  assume a: "P ''gemini-2.0-flash-exp'' up ps = (Raises e1, ps1) \<and> is_transient (str e1)
      \<and> P ''gemini-1.5-flash-latest'' up ps1 = (Raises e2, ps2) \<and> is_transient (str e2)
      \<and> P ''gemini-1.5-flash'' up ps2 = (Returns r, ps3)"
  then have run: "try_models P up models_to_try (initial_state ps) =
     (Break, \<lparr>last_error = Some e2, response = Some r,
        trace = [Print_trying ''gemini-2.0-flash-exp'',
             Print_failed ''gemini-2.0-flash-exp'' (str e1), Print_model_issue, Sleep,
             Print_trying ''gemini-1.5-flash-latest'',
             Print_failed ''gemini-1.5-flash-latest'' (str e2), Print_model_issue, Sleep,
             Print_trying ''gemini-1.5-flash'', Print_success ''gemini-1.5-flash''],
        provider_state = ps3\<rparr>)"
    by (simp add: models_to_try_def initial_state_def try_models_Cons_transient
        try_models_Cons_returns)
  then have res: "resolve P up ps = (Inr r, snd (try_models P up models_to_try (initial_state ps)))"
    by (simp add: resolve_def check_response_def)
  from res show "fst (resolve P up ps) = Inr r" by simp
  from res run show t: "trace (snd (resolve P up ps)) =
            [Print_trying ''gemini-2.0-flash-exp'',
             Print_failed ''gemini-2.0-flash-exp'' (str e1), Print_model_issue, Sleep,
             Print_trying ''gemini-1.5-flash-latest'',
             Print_failed ''gemini-1.5-flash-latest'' (str e2), Print_model_issue, Sleep,
             Print_trying ''gemini-1.5-flash'', Print_success ''gemini-1.5-flash'']"
    by simp
  then show "attempts (trace (snd (resolve P up ps))) =
            [''gemini-2.0-flash-exp'', ''gemini-1.5-flash-latest'', ''gemini-1.5-flash'']"
    by simp
  from res show "\<forall>request. user_prompt request = up \<longrightarrow>
              fst (generate_website P request ps) =
              fst (respond r (trace (snd (resolve P up ps))))"
    by (auto simp: generate_website_def split: prod.splits)
qed

theorem candidates_tried_in_order_witness:
  "third_answers ''gemini-2.0-flash-exp'' ''a page'' 0
     = (Raises (Exception ''503 Service Unavailable''), Suc 0)
   \<and> third_answers ''gemini-1.5-flash-latest'' ''a page'' (Suc 0)
     = (Raises (Exception ''503 Service Unavailable''), Suc (Suc 0))
   \<and> third_answers ''gemini-1.5-flash'' ''a page'' (Suc (Suc 0))
     = (Returns (GenerateContentResponse (Inr ''<p>hi</p>'')), Suc (Suc (Suc 0)))
   \<and> is_transient ''503 Service Unavailable''
   \<and> fst (resolve third_answers ''a page'' 0) = Inr (GenerateContentResponse (Inr ''<p>hi</p>''))
   \<and> attempts (trace (snd (resolve third_answers ''a page'' 0))) =
       [''gemini-2.0-flash-exp'', ''gemini-1.5-flash-latest'', ''gemini-1.5-flash'']"
proof -
  have t: "is_transient ''503 Service Unavailable''" by code_simp
  have a: "third_answers ''gemini-2.0-flash-exp'' ''a page'' 0
     = (Raises (Exception ''503 Service Unavailable''), Suc 0)"
    and b: "third_answers ''gemini-1.5-flash-latest'' ''a page'' (Suc 0)
     = (Raises (Exception ''503 Service Unavailable''), Suc (Suc 0))"
    and c: "third_answers ''gemini-1.5-flash'' ''a page'' (Suc (Suc 0))
     = (Returns (GenerateContentResponse (Inr ''<p>hi</p>'')), Suc (Suc (Suc 0)))"
    by (simp_all add: third_answers_def)
  from candidates_tried_in_order [where P = third_answers and up = "''a page''" and ps = 0
      and ?e1.0 = "Exception ''503 Service Unavailable''" and ?ps1.0 = "Suc 0"
      and ?e2.0 = "Exception ''503 Service Unavailable''" and ?ps2.0 = "Suc (Suc 0)"
      and r = "GenerateContentResponse (Inr ''<p>hi</p>'')" and ?ps3.0 = "Suc (Suc (Suc 0))"]
    a b c t
  show ?thesis by simp
qed


section \<open>A failure that is not transient\<close>

text \<open>
  C2: when an attempt fails with an error whose text is not transient, that error leaves
  the handler at once and the failed attempt is the last thing the run records, so no
  later candidate is attempted. When this happens at the first candidate, the run
  consists of that one attempt.
\<close>

theorem non_transient_failure_stops:
  "(resolve P up ps = (res, st) \<and> Print_failed m err \<in> set (trace st)
      \<and> \<not> is_transient err
      \<longrightarrow> res = Inl (Uncaught (Exception err))
        \<and> (\<exists>evs. trace st = evs @ [Print_trying m, Print_failed m err]))
   \<and> (P ''gemini-2.0-flash-exp'' up ps = (Raises e, ps') \<and> \<not> is_transient (str e)
      \<longrightarrow> fst (resolve P up ps) = Inl (Uncaught e)
        \<and> trace (snd (resolve P up ps)) =
            [Print_trying ''gemini-2.0-flash-exp'',
             Print_failed ''gemini-2.0-flash-exp'' (str e)]
        \<and> attempts (trace (snd (resolve P up ps))) = [''gemini-2.0-flash-exp''])"
proof (intro conjI impI)
  assume a: "resolve P up ps = (res, st) \<and> Print_failed m err \<in> set (trace st)
      \<and> \<not> is_transient err"
  obtain ex st' where run: "try_models P up models_to_try (initial_state ps) = (ex, st')"
    by (cases "try_models P up models_to_try (initial_state ps)")
  with a resolve_state [of P up ps] have st: "st' = st" by simp
  have "trace st' = trace (initial_state ps) @ trace st'" by (simp add: initial_state_def)
  from try_models_fatal_last [OF run this] a st
  have ex: "ex = Raised (Exception err)"
    and tr: "\<exists>pre. trace st = pre @ [Print_trying m, Print_failed m err]" by auto
  from a run ex show "res = Inl (Uncaught (Exception err))" by (simp add: resolve_def)
  from tr show "\<exists>evs. trace st = evs @ [Print_trying m, Print_failed m err]" .
next
  assume a: "P ''gemini-2.0-flash-exp'' up ps = (Raises e, ps') \<and> \<not> is_transient (str e)"
  then have run: "try_models P up models_to_try (initial_state ps) =
     (Raised e, \<lparr>last_error = Some e, response = None,
        trace = [Print_trying ''gemini-2.0-flash-exp'',
                 Print_failed ''gemini-2.0-flash-exp'' (str e)],
        provider_state = ps'\<rparr>)"
    by (simp add: models_to_try_def initial_state_def try_models_Cons_fatal)
  then show "fst (resolve P up ps) = Inl (Uncaught e)" by (simp add: resolve_def)
  from run show t: "trace (snd (resolve P up ps)) =
            [Print_trying ''gemini-2.0-flash-exp'',
             Print_failed ''gemini-2.0-flash-exp'' (str e)]"
    by (simp add: resolve_state)
  then show "attempts (trace (snd (resolve P up ps))) = [''gemini-2.0-flash-exp'']"
    by simp
qed

theorem non_transient_failure_stops_witness:
  "resolve bad_key ''a page'' 0 =
     (Inl (Uncaught (Exception ''400 API key not valid'')),
      \<lparr>last_error = Some (Exception ''400 API key not valid''), response = None,
       trace = [Print_trying ''gemini-2.0-flash-exp'',
                Print_failed ''gemini-2.0-flash-exp'' ''400 API key not valid''],
       provider_state = Suc 0\<rparr>)
   \<and> \<not> is_transient ''400 API key not valid''
   \<and> bad_key ''gemini-2.0-flash-exp'' ''a page'' 0
       = (Raises (Exception ''400 API key not valid''), Suc 0)
   \<and> attempts (trace (snd (resolve bad_key ''a page'' 0))) = [''gemini-2.0-flash-exp'']"
proof -
  have t: "\<not> is_transient ''400 API key not valid''" by code_simp
  have a: "bad_key ''gemini-2.0-flash-exp'' ''a page'' 0
       = (Raises (Exception ''400 API key not valid''), Suc 0)"
    by (simp add: bad_key_def)
  have r: "resolve bad_key ''a page'' 0 =
     (Inl (Uncaught (Exception ''400 API key not valid'')),
      \<lparr>last_error = Some (Exception ''400 API key not valid''), response = None,
       trace = [Print_trying ''gemini-2.0-flash-exp'',
                Print_failed ''gemini-2.0-flash-exp'' ''400 API key not valid''],
       provider_state = Suc 0\<rparr>)"
    using t a
    by (simp add: resolve_def models_to_try_def initial_state_def try_models_Cons_fatal)
  from non_transient_failure_stops [where P = bad_key and up = "''a page''" and ps = 0
      and res = "Inl (Uncaught (Exception ''400 API key not valid''))"
      and st = "\<lparr>last_error = Some (Exception ''400 API key not valid''), response = None,
       trace = [Print_trying ''gemini-2.0-flash-exp'',
                Print_failed ''gemini-2.0-flash-exp'' ''400 API key not valid''],
       provider_state = Suc 0\<rparr>"
      and m = "''gemini-2.0-flash-exp''" and err = "''400 API key not valid''"
      and e = "Exception ''400 API key not valid''" and ps' = "Suc 0"]
    t a r
  show ?thesis by simp
qed


section \<open>All candidates unavailable\<close>

text \<open>
  C3: when all four candidates fail with transient errors, all four are attempted, the
  request fails with status 503, the detail ends with, and so contains, the text of the
  fourth error, and no response record is returned.
\<close>

theorem all_transient_gives_503:
  assumes "P ''gemini-2.0-flash-exp'' up ps = (Raises e1, ps1)" and "is_transient (str e1)"
    and "P ''gemini-1.5-flash-latest'' up ps1 = (Raises e2, ps2)" and "is_transient (str e2)"
    and "P ''gemini-1.5-flash'' up ps2 = (Raises e3, ps3)" and "is_transient (str e3)"
    and "P ''gemini-1.5-pro-latest'' up ps3 = (Raises e4, ps4)" and "is_transient (str e4)"
    and "user_prompt request = up"
  shows "\<exists>detail. fst (resolve P up ps) = Inl (HTTPException 503 detail)
     \<and> fst (generate_website P request ps) = Inl (HTTPException 503 detail)
     \<and> detail = ''All Gemini models are currently unavailable. Please try again in a few moments. Last error: '' @ str e4
     \<and> contains (str e4) detail
     \<and> attempts (trace (snd (resolve P up ps))) = models_to_try"
proof -
  define detail where "detail = ''All Gemini models are currently unavailable. Please try again in a few moments. Last error: '' @ str e4"
  from assms(1-8) have run: "try_models P up models_to_try (initial_state ps) =
     (Exhausted, \<lparr>last_error = Some e4, response = None,
        trace = [Print_trying ''gemini-2.0-flash-exp'',
             Print_failed ''gemini-2.0-flash-exp'' (str e1), Print_model_issue, Sleep,
             Print_trying ''gemini-1.5-flash-latest'',
             Print_failed ''gemini-1.5-flash-latest'' (str e2), Print_model_issue, Sleep,
             Print_trying ''gemini-1.5-flash'',
             Print_failed ''gemini-1.5-flash'' (str e3), Print_model_issue, Sleep,
             Print_trying ''gemini-1.5-pro-latest'',
             Print_failed ''gemini-1.5-pro-latest'' (str e4), Print_model_issue, Sleep],
        provider_state = ps4\<rparr>)"
    by (simp add: models_to_try_def initial_state_def try_models_Cons_transient)
  then have r: "fst (resolve P up ps) = Inl (HTTPException 503 detail)"
    by (simp add: resolve_def detail_def)
  with assms(9) have g: "fst (generate_website P request ps) = Inl (HTTPException 503 detail)"
    by (intro generate_website_failure) simp
  have c: "contains (str e4) detail" unfolding detail_def by (rule contains_append)
  from run have a: "attempts (trace (snd (resolve P up ps))) = models_to_try"
    by (simp add: resolve_state models_to_try_def)
  from r g c a detail_def show ?thesis by blast
qed

theorem all_transient_gives_503_witness:
  "is_transient ''404 models/gemini-2.0-flash-exp is not found''
   \<and> is_transient ''404 models/gemini-1.5-flash-latest is not found''
   \<and> is_transient ''404 models/gemini-1.5-flash is not found''
   \<and> is_transient ''404 models/gemini-1.5-pro-latest is not found''
   \<and> (\<exists>detail.
        fst (generate_website unknown_models \<lparr>prompt = ''a bakery'', style = ''modern''\<rparr> 0)
          = Inl (HTTPException 503 detail)
        \<and> contains ''404 models/gemini-1.5-pro-latest is not found'' detail)"
proof -
  have t: "is_transient ''404 models/gemini-2.0-flash-exp is not found''"
    "is_transient ''404 models/gemini-1.5-flash-latest is not found''"
    "is_transient ''404 models/gemini-1.5-flash is not found''"
    "is_transient ''404 models/gemini-1.5-pro-latest is not found''"
    by code_simp+
  from all_transient_gives_503 [where P = unknown_models
      and request = "\<lparr>prompt = ''a bakery'', style = ''modern''\<rparr>"
      and up = "user_prompt \<lparr>prompt = ''a bakery'', style = ''modern''\<rparr>" and ps = 0
      and ?e1.0 = "Exception ''404 models/gemini-2.0-flash-exp is not found''"
      and ?e2.0 = "Exception ''404 models/gemini-1.5-flash-latest is not found''"
      and ?e3.0 = "Exception ''404 models/gemini-1.5-flash is not found''"
      and ?e4.0 = "Exception ''404 models/gemini-1.5-pro-latest is not found''"
      and ?ps1.0 = "Suc 0" and ?ps2.0 = "Suc (Suc 0)" and ?ps3.0 = "Suc (Suc (Suc 0))"
      and ?ps4.0 = "Suc (Suc (Suc (Suc 0)))"] t
  show ?thesis by (simp add: unknown_models_def)
qed


section \<open>The documented reply\<close>

text \<open>
  C4, amended: for a raw text of the documented form, with white space between the markers
  and the fences, the extraction returns the trimmed interior of the html fence and the
  trimmed interior of the css fence, provided that the html interior contains none of
  \<^verbatim>\<open>HTML:\<close>, \<^verbatim>\<open>CSS:\<close> and the fence \<^verbatim>\<open>```\<close> and does not end in a backtick, and
  that the css interior contains neither \<^verbatim>\<open>CSS:\<close> nor the fence and does not end in a
  backtick.
\<close>

theorem documented_format_round_trip:
  assumes w: "blank w1" "blank w2" "blank w3" "blank w4"
    and H: "\<not> contains ''HTML:'' H" "\<not> contains ''CSS:'' H"
      "\<not> contains ''```'' H" "\<not> suffix ''`'' H"
    and C: "\<not> contains ''CSS:'' C" "\<not> contains ''```'' C" "\<not> suffix ''`'' C"
  shows "extract_fragments (documented_format w1 H w2 w3 C w4) = Inr (strip H, strip C)"
proof -
  define A' where "A' = w1 @ ''```html'' @ H @ ''```'' @ w2"
  define A where "A = ''HTML:'' @ A'"
  define B where "B = w3 @ ''```css'' @ C @ ''```'' @ w4"
  define content where "content = documented_format w1 H w2 w3 C w4"
  have content: "content = A @ ''CSS:'' @ B"
    by (simp add: content_def documented_format_def A_def A'_def B_def)
  have sp: "\<not> isspace (CHR ''C'')" "\<not> isspace (CHR ''H'')" "\<not> isspace (CHR 0x60)"
    by (simp_all add: isspace_def)
  have A'_css: "no_start ''CSS:'' A'"
    unfolding A'_def using w(1,2) sp(1) H(2)
    by (intro no_start_fenced) (simp_all add: blank_foreign)
  have "no_start ''CSS:'' ''HTML:''"
    by (rule no_start_foreign) simp_all
  then have A_css: "no_start ''CSS:'' A"
    unfolding A_def using A'_css by (rule no_start_append)
  have B_css: "no_start ''CSS:'' B"
    unfolding B_def using w(3,4) sp(1) C(1)
    by (intro no_start_fenced) (simp_all add: blank_foreign)
  have A'_html: "no_start ''HTML:'' A'"
    unfolding A'_def using w(1,2) sp(2) H(1)
    by (intro no_start_fenced) (simp_all add: blank_foreign)
  have "find_str ''CSS:'' B = None"
    using B_css by (intro find_str_none) simp_all
  then have parts: "split_at ''CSS:'' content = [A, B]"
    unfolding content using A_css by (intro split_at_two_parts) simp_all
  have "find_str ''HTML:'' A' = None"
    using A'_html by (intro find_str_none) simp_all
  then have "replace_at ''HTML:'' [] A = A'"
    using replace_at_some [OF _ find_str_here, of "''HTML:''" "[]" A']
    by (simp add: A_def replace_at_none)
  then have rep: "replace_str ''HTML:'' [] A = A'" by (simp add: replace_str_def)
  have secs: "sections content = Inr (strip A', strip B)"
    by (simp add: sections_def split_str_def bind_err_def index_def parts rep)
  define S1 where "S1 = ''```html'' @ H @ ''```''"
  define S2 where "S2 = ''```css'' @ C @ ''```''"
  have sA: "strip A' = S1"
    using strip_blank_around [OF w(1,2), of "''```html'' @ H @ ''```''"] sp(3)
    by (simp add: A'_def S1_def)
  have sB: "strip B = S2"
    using strip_blank_around [OF w(3,4), of "''```css'' @ C @ ''```''"] sp(3)
    by (simp add: B_def S2_def)
  have hb: "fence_body ''```html'' S1 = Inr (strip H)"
    unfolding S1_def by (rule fence_body_exact [OF _ _ H(3,4), of _ "''html''"]) simp_all
  have cb: "fence_body ''```css'' S2 = Inr (strip C)"
    unfolding S2_def by (rule fence_body_exact [OF _ _ C(2,3), of _ "''css''"]) simp_all
  have "contains ''```html'' S1"
    unfolding S1_def contains_def by (simp only: find_str_here) simp
  with hb have hs: "from_section ''```html'' S1 = Inr (strip H)"
    by (simp add: from_section_def)
  have "contains ''```css'' S2"
    unfolding S2_def contains_def by (simp only: find_str_here) simp
  with cb have cs: "from_section ''```css'' S2 = Inr (strip C)"
    by (simp add: from_section_def)
  have "content = [] @ ''HTML:'' @ (A' @ ''CSS:'' @ B)"
    by (simp add: content A_def)
  then have b1: "contains ''HTML:'' content" unfolding contains_iff by blast
  have b2: "contains ''CSS:'' content" unfolding contains_iff content by blast
  from b1 b2 secs show ?thesis
    unfolding content_def [symmetric]
    by (simp add: extract_fragments_def bind_err_def sA sB hs cs)
qed

theorem documented_format_round_trip_witness:
  "blank [CHR 0x0A] \<and> blank [CHR 0x0A, CHR 0x0A] \<and> blank []
   \<and> \<not> contains ''HTML:'' '' <p>x</p> '' \<and> \<not> contains ''CSS:'' '' <p>x</p> ''
   \<and> \<not> contains ''```'' '' <p>x</p> '' \<and> \<not> suffix ''`'' '' <p>x</p> ''
   \<and> \<not> contains ''CSS:'' '' p{} '' \<and> \<not> contains ''```'' '' p{} ''
   \<and> \<not> suffix ''`'' '' p{} ''
   \<and> extract_fragments
        (documented_format [CHR 0x0A] '' <p>x</p> '' [CHR 0x0A, CHR 0x0A] [CHR 0x0A] '' p{} '' [])
       = Inr (''<p>x</p>'', ''p{}'')"
proof -
  have w: "blank [CHR 0x0A]" "blank [CHR 0x0A, CHR 0x0A]" "blank []"
    by (simp_all add: blank_def isspace_def)
  have H: "\<not> contains ''HTML:'' '' <p>x</p> ''" "\<not> contains ''CSS:'' '' <p>x</p> ''"
    "\<not> contains ''```'' '' <p>x</p> ''" "\<not> suffix ''`'' '' <p>x</p> ''"
    by (simp_all add: contains_def suffix_to_prefix)
  have C: "\<not> contains ''CSS:'' '' p{} ''" "\<not> contains ''```'' '' p{} ''"
    "\<not> suffix ''`'' '' p{} ''"
    by (simp_all add: contains_def suffix_to_prefix)
  have s: "strip '' <p>x</p> '' = ''<p>x</p>''" "strip '' p{} '' = ''p{}''"
    by (simp_all add: strip_def isspace_def)
  from documented_format_round_trip [OF w(1) w(2) w(1) w(3) H C] w H C s
  show ?thesis by simp
qed

text \<open>
  Without the proviso the round trip fails: \<^verbatim>\<open>replace\<close> removes every \<^verbatim>\<open>HTML:\<close> of
  the first section, also one inside the html fence. The markup that comes back is not
  the interior of the fence.
\<close>

theorem marker_inside_fence_counterexample:
  "extract_fragments
     (documented_format [CHR 0x0A] ''<h1>HTML: basics</h1>'' [CHR 0x0A] [CHR 0x0A] ''h1{}'' [])
     = Inr (''<h1> basics</h1>'', ''h1{}'')
   \<and> extract_fragments
     (documented_format [CHR 0x0A] ''<h1>HTML: basics</h1>'' [CHR 0x0A] [CHR 0x0A] ''h1{}'' [])
     \<noteq> Inr (strip ''<h1>HTML: basics</h1>'', strip ''h1{}'')"
  by (simp add: documented_format_def extract_fragments_def contains_def sections_def
      split_str_def split_at.simps bind_err_def index_def replace_str_def replace_at.simps
      strip_def isspace_def from_section_def fence_body_def)


section \<open>The split at the stylesheet marker\<close>

text \<open>
  C5, amended: for a raw text that contains both markers, the text is cut at the first
  \<^verbatim>\<open>CSS:\<close>, and the first section is what stands before it, with every \<^verbatim>\<open>HTML:\<close>
  removed, trimmed. When no further \<^verbatim>\<open>CSS:\<close> follows, the split has exactly two
  parts and the second section is everything after the marker, trimmed.
\<close>

theorem sections_at_first_marker:
  assumes "contains ''HTML:'' content" and "contains ''CSS:'' content"
  shows "\<exists>i. find_str ''CSS:'' content = Some i
     \<and> content = take i content @ ''CSS:'' @ drop (i + 4) content
     \<and> (\<exists>css_section. sections content =
           Inr (strip (replace_str ''HTML:'' [] (take i content)), css_section))
     \<and> (\<not> contains ''CSS:'' (drop (i + 4) content) \<longrightarrow>
          split_str ''CSS:'' content = Inr [take i content, drop (i + 4) content]
          \<and> sections content =
              Inr (strip (replace_str ''HTML:'' [] (take i content)),
                   strip (drop (i + 4) content)))"
proof -
  from sections_split [OF assms] obtain i where i: "find_str ''CSS:'' content = Some i"
    and d: "content = take i content @ ''CSS:'' @ drop (i + 4) content"
    and s: "sections content =
         Inr (strip (replace_str ''HTML:'' [] (take i content)),
              strip (case find_str ''CSS:'' (drop (i + 4) content) of
                       None \<Rightarrow> drop (i + 4) content
                     | Some j \<Rightarrow> take j (drop (i + 4) content)))"
    and two: "\<not> contains ''CSS:'' (drop (i + 4) content) \<longrightarrow>
          split_str ''CSS:'' content = Inr [take i content, drop (i + 4) content]"
    by blast
  from s have "\<exists>css_section. sections content =
           Inr (strip (replace_str ''HTML:'' [] (take i content)), css_section)"
    by blast
  moreover from s have "sections content =
              Inr (strip (replace_str ''HTML:'' [] (take i content)),
                   strip (drop (i + 4) content))"
    if "\<not> contains ''CSS:'' (drop (i + 4) content)"
    using that by (simp add: contains_def)
  ultimately show ?thesis using i d two by blast
qed

theorem sections_at_first_marker_witness:
  "contains ''HTML:'' ''HTML:<p>hi</p>CSS:p{}'' \<and> contains ''CSS:'' ''HTML:<p>hi</p>CSS:p{}''
   \<and> find_str ''CSS:'' ''HTML:<p>hi</p>CSS:p{}'' = Some 14
   \<and> \<not> contains ''CSS:'' (drop (14 + 4) ''HTML:<p>hi</p>CSS:p{}'')
   \<and> split_str ''CSS:'' ''HTML:<p>hi</p>CSS:p{}'' = Inr [''HTML:<p>hi</p>'', ''p{}'']
   \<and> sections ''HTML:<p>hi</p>CSS:p{}'' = Inr (''<p>hi</p>'', ''p{}'')"
proof -
  have a: "contains ''HTML:'' ''HTML:<p>hi</p>CSS:p{}''"
    and b: "contains ''CSS:'' ''HTML:<p>hi</p>CSS:p{}''"
    by (simp_all add: contains_def)
  have f: "find_str ''CSS:'' ''HTML:<p>hi</p>CSS:p{}'' = Some 14" by simp
  have n: "\<not> contains ''CSS:'' (drop (14 + 4) ''HTML:<p>hi</p>CSS:p{}'')"
    by (simp add: contains_def)
  from sections_at_first_marker [OF a b] obtain i
    where "find_str ''CSS:'' ''HTML:<p>hi</p>CSS:p{}'' = Some i"
      and "\<not> contains ''CSS:'' (drop (i + 4) ''HTML:<p>hi</p>CSS:p{}'') \<longrightarrow>
          split_str ''CSS:'' ''HTML:<p>hi</p>CSS:p{}''
            = Inr [take i ''HTML:<p>hi</p>CSS:p{}'', drop (i + 4) ''HTML:<p>hi</p>CSS:p{}'']
          \<and> sections ''HTML:<p>hi</p>CSS:p{}'' =
              Inr (strip (replace_str ''HTML:'' [] (take i ''HTML:<p>hi</p>CSS:p{}'')),
                   strip (drop (i + 4) ''HTML:<p>hi</p>CSS:p{}''))"
    by blast
  with f n have "split_str ''CSS:'' ''HTML:<p>hi</p>CSS:p{}''
            = Inr [take 14 ''HTML:<p>hi</p>CSS:p{}'', drop (14 + 4) ''HTML:<p>hi</p>CSS:p{}'']"
    and "sections ''HTML:<p>hi</p>CSS:p{}'' =
              Inr (strip (replace_str ''HTML:'' [] (take 14 ''HTML:<p>hi</p>CSS:p{}'')),
                   strip (drop (14 + 4) ''HTML:<p>hi</p>CSS:p{}''))"
    by auto
  with a b f n show ?thesis
    by (simp add: replace_str_def replace_at.simps strip_def isspace_def)
qed

text \<open>
  With two stylesheet markers the split has three parts and the second section stops at
  the second marker: what follows that marker is not in the result.
\<close>

theorem two_markers_counterexample:
  "contains ''HTML:'' ''HTML:a CSS:b CSS:c'' \<and> contains ''CSS:'' ''HTML:a CSS:b CSS:c''
   \<and> split_str ''CSS:'' ''HTML:a CSS:b CSS:c'' = Inr [''HTML:a '', ''b '', ''c'']
   \<and> sections ''HTML:a CSS:b CSS:c'' = Inr (''a'', ''b'')
   \<and> sections ''HTML:a CSS:b CSS:c'' \<noteq> Inr (''a'', strip ''b CSS:c'')
   \<and> extract_fragments ''HTML:a CSS:b CSS:c'' = Inr (''a'', ''b'')"
  by (simp add: extract_fragments_def contains_def sections_def split_str_def
      split_at.simps bind_err_def index_def replace_str_def replace_at.simps strip_def
      isspace_def from_section_def)


section \<open>Which failures are transient\<close>

text \<open>
  C6: an error text is transient exactly when its lower-cased form has one of
  \<^verbatim>\<open>503\<close>, \<^verbatim>\<open>overloaded\<close>, \<^verbatim>\<open>unavailable\<close>, \<^verbatim>\<open>not found\<close>, \<^verbatim>\<open>404\<close> as a
  substring. A failed attempt with a transient text is followed by the pause and the loop
  goes on with the remaining candidates; with any other text the loop ends at once with
  that error.
\<close>

theorem transient_iff_keyword:
  "(is_transient error_str \<longleftrightarrow>
      (\<exists>keyword \<in> {''503'', ''overloaded'', ''unavailable'', ''not found'', ''404''}.
         \<exists>pre post. lower error_str = pre @ keyword @ post))
   \<and> (P m up (provider_state st) = (Raises e, ps') \<and> is_transient (str e) \<longrightarrow>
        try_models P up (m # rest) st =
        try_models P up rest
          (st\<lparr>provider_state := ps', last_error := Some e,
              trace := trace st @ [Print_trying m, Print_failed m (str e),
                                   Print_model_issue, Sleep]\<rparr>))
   \<and> (P m up (provider_state st) = (Raises e, ps') \<and> \<not> is_transient (str e) \<longrightarrow>
        try_models P up (m # rest) st =
        (Raised e, st\<lparr>provider_state := ps', last_error := Some e,
                       trace := trace st @ [Print_trying m, Print_failed m (str e)]\<rparr>))"
proof (intro conjI impI)
  show "is_transient error_str \<longleftrightarrow>
      (\<exists>keyword \<in> {''503'', ''overloaded'', ''unavailable'', ''not found'', ''404''}.
         \<exists>pre post. lower error_str = pre @ keyword @ post)"
    by (simp add: is_transient_def transient_keywords_def contains_iff)
qed (simp_all add: try_models_Cons_transient try_models_Cons_fatal)

theorem transient_iff_keyword_witness:
  "is_transient ''Model is OVERLOADED''
   \<and> (\<exists>keyword \<in> {''503'', ''overloaded'', ''unavailable'', ''not found'', ''404''}.
         \<exists>pre post. lower ''Model is OVERLOADED'' = pre @ keyword @ post)
   \<and> bad_key ''m'' ''a page'' (provider_state (initial_state 0))
       = (Raises (Exception ''400 API key not valid''), Suc 0)
   \<and> \<not> is_transient ''400 API key not valid''
   \<and> try_models bad_key ''a page'' [''m'', ''n''] (initial_state 0) =
       (Raised (Exception ''400 API key not valid''),
        \<lparr>last_error = Some (Exception ''400 API key not valid''), response = None,
         trace = [Print_trying ''m'', Print_failed ''m'' ''400 API key not valid''],
         provider_state = Suc 0\<rparr>)
   \<and> unknown_models ''m'' ''a page'' (provider_state (initial_state 0))
       = (Raises (Exception ''404 models/m is not found''), Suc 0)
   \<and> is_transient ''404 models/m is not found''
   \<and> try_models unknown_models ''a page'' [''m''] (initial_state 0) =
       (Exhausted,
        \<lparr>last_error = Some (Exception ''404 models/m is not found''), response = None,
         trace = [Print_trying ''m'', Print_failed ''m'' ''404 models/m is not found'',
                  Print_model_issue, Sleep],
         provider_state = Suc 0\<rparr>)"
proof -
  have t: "is_transient ''Model is OVERLOADED''" "\<not> is_transient ''400 API key not valid''"
    "is_transient ''404 models/m is not found''"
    by code_simp+
  have a: "bad_key ''m'' ''a page'' (provider_state (initial_state 0))
       = (Raises (Exception ''400 API key not valid''), Suc 0)"
    by (simp add: bad_key_def initial_state_def)
  have b: "unknown_models ''m'' ''a page'' (provider_state (initial_state 0))
       = (Raises (Exception ''404 models/m is not found''), Suc 0)"
    by (simp add: unknown_models_def initial_state_def)
  from transient_iff_keyword [where error_str = "''Model is OVERLOADED''"
      and P = bad_key and m = "''m''" and up = "''a page''" and st = "initial_state 0"
      and e = "Exception ''400 API key not valid''" and ps' = "Suc 0" and rest = "[''n'']"]
    transient_iff_keyword [where error_str = "''Model is OVERLOADED''"
      and P = unknown_models and m = "''m''" and up = "''a page''" and st = "initial_state 0"
      and e = "Exception ''404 models/m is not found''" and ps' = "Suc 0" and rest = "[]"]
    t a b
  show ?thesis by (simp add: initial_state_def)
qed


section \<open>Text without markers and fences\<close>

text \<open>
  C7, amended: when the raw text does not hold both markers \<^verbatim>\<open>HTML:\<close> and \<^verbatim>\<open>CSS:\<close>
  and holds neither the opening fence \<^verbatim>\<open>```html\<close> nor the opening fence \<^verbatim>\<open>```css\<close>
  anywhere, closed or not, the markup fragment is the whole raw text and the stylesheet
  fragment is empty.
\<close>

theorem no_markers_no_fences:
  assumes "\<not> (contains ''HTML:'' content \<and> contains ''CSS:'' content)"
    and "\<not> contains ''```html'' content" and "\<not> contains ''```css'' content"
  shows "extract_fragments content = Inr (content, [])"
  by (simp add: extract_fragments_def bind_err_def assms)

theorem no_markers_no_fences_witness:
  "\<not> (contains ''HTML:'' ''<p>CSS: none</p>'' \<and> contains ''CSS:'' ''<p>CSS: none</p>'')
   \<and> \<not> contains ''```html'' ''<p>CSS: none</p>''
   \<and> \<not> contains ''```css'' ''<p>CSS: none</p>''
   \<and> extract_fragments ''<p>CSS: none</p>'' = Inr (''<p>CSS: none</p>'', [])"
proof -
  have a: "\<not> (contains ''HTML:'' ''<p>CSS: none</p>'' \<and> contains ''CSS:'' ''<p>CSS: none</p>'')"
    by (simp add: contains_def)
  have b: "\<not> contains ''```html'' ''<p>CSS: none</p>''"
    by (simp add: contains_def)
  have c: "\<not> contains ''```css'' ''<p>CSS: none</p>''"
    by (simp add: contains_def)
  from a b c no_markers_no_fences [OF a b c] show ?thesis by blast
qed

text \<open>
  The absence of fenced blocks is not enough. The fallback looks for an opening fence and
  takes what follows it up to the next fence or the end of the text, so an opening fence
  that is never closed yields a fragment: a reply cut off inside its html fence comes back
  without the text before the fence, and a text that only mentions \<^verbatim>\<open>```css\<close> gets a
  stylesheet.
\<close>

theorem unclosed_fence_counterexample:
  "\<not> (contains ''HTML:'' ''Here it is: ```html <p>hi</p>''
        \<and> contains ''CSS:'' ''Here it is: ```html <p>hi</p>'')
   \<and> \<not> tagged_fenced_block ''```html'' ''Here it is: ```html <p>hi</p>''
   \<and> \<not> tagged_fenced_block ''```css'' ''Here it is: ```html <p>hi</p>''
   \<and> extract_fragments ''Here it is: ```html <p>hi</p>'' = Inr (''<p>hi</p>'', [])
   \<and> extract_fragments ''Here it is: ```html <p>hi</p>''
       \<noteq> Inr (''Here it is: ```html <p>hi</p>'', [])
   \<and> \<not> (contains ''HTML:'' ''<p>hi</p> (no ```css needed)''
        \<and> contains ''CSS:'' ''<p>hi</p> (no ```css needed)'')
   \<and> \<not> tagged_fenced_block ''```html'' ''<p>hi</p> (no ```css needed)''
   \<and> \<not> tagged_fenced_block ''```css'' ''<p>hi</p> (no ```css needed)''
   \<and> extract_fragments ''<p>hi</p> (no ```css needed)''
       = Inr (''<p>hi</p> (no ```css needed)'', ''needed)'')"
  by (simp add: tagged_fenced_block_def extract_fragments_def contains_def
      split_str_def split_at.simps bind_err_def index_def strip_def isspace_def fence_body_def)


section \<open>The user prompt\<close>

text \<open>
  C8: the user prompt is the fixed sentence with the style keyword, its descriptor and the
  free text put in. For a style keyword outside the four of the table the descriptor is
  empty and nothing is raised. The free text stands in the prompt as it is, in full: the
  prompt is longer than the free text by the length of the rest. Two requests with the
  same free text and style keyword get the same prompt.
\<close>

theorem prompt_construction:
  "user_prompt request =
     ''Create a stunning '' @ style request @ '' style website ''
     @ (case style_descriptions (style request) of None \<Rightarrow> [] | Some d \<Rightarrow> d)
     @ '': '' @ prompt request
     @ ''. Make it visually impressive with rich CSS styling, beautiful colors, and modern design. NO external images - use colored divs and gradients for visual elements.''
   \<and> (style request \<notin> {''modern'', ''minimal'', ''professional'', ''creative''} \<longrightarrow>
        style_desc request = []
        \<and> user_prompt request =
            ''Create a stunning '' @ style request @ '' style website : '' @ prompt request
            @ ''. Make it visually impressive with rich CSS styling, beautiful colors, and modern design. NO external images - use colored divs and gradients for visual elements.'')
   \<and> contains (prompt request) (user_prompt request)
   \<and> length (user_prompt request) =
        length (style request) + length (style_desc request) + length (prompt request) + 197
   \<and> (prompt other = prompt request \<and> style other = style request \<longrightarrow>
        user_prompt other = user_prompt request)"
proof (intro conjI impI)
  show "contains (prompt request) (user_prompt request)"
    unfolding contains_iff user_prompt_def by (metis append.assoc)
  assume "style request \<notin> {''modern'', ''minimal'', ''professional'', ''creative''}"
  then show d: "style_desc request = []"
    by (simp add: style_desc_def style_descriptions_def)
  then show "user_prompt request =
            ''Create a stunning '' @ style request @ '' style website : '' @ prompt request
            @ ''. Make it visually impressive with rich CSS styling, beautiful colors, and modern design. NO external images - use colored divs and gradients for visual elements.''"
    by (simp add: user_prompt_def)
qed (simp_all add: user_prompt_def style_desc_def)

theorem prompt_construction_witness:
  "style \<lparr>prompt = ''a bakery <b>'', style = ''retro''\<rparr>
     \<notin> {''modern'', ''minimal'', ''professional'', ''creative''}
   \<and> style_desc \<lparr>prompt = ''a bakery <b>'', style = ''retro''\<rparr> = []
   \<and> contains (prompt \<lparr>prompt = ''a bakery <b>'', style = ''retro''\<rparr>)
        (user_prompt \<lparr>prompt = ''a bakery <b>'', style = ''retro''\<rparr>)
   \<and> user_prompt \<lparr>prompt = ''a bakery <b>'', style = ''retro''\<rparr> =
       ''Create a stunning retro style website : a bakery <b>. Make it visually impressive with rich CSS styling, beautiful colors, and modern design. NO external images - use colored divs and gradients for visual elements.''"
proof -
  have h: "style \<lparr>prompt = ''a bakery <b>'', style = ''retro''\<rparr>
     \<notin> {''modern'', ''minimal'', ''professional'', ''creative''}"
    by simp
  have o: "prompt \<lparr>prompt = ''a bakery <b>'', style = ''retro''\<rparr>
       = prompt \<lparr>prompt = ''a bakery <b>'', style = ''retro''\<rparr>
     \<and> style \<lparr>prompt = ''a bakery <b>'', style = ''retro''\<rparr>
       = style \<lparr>prompt = ''a bakery <b>'', style = ''retro''\<rparr>"
    by simp
  from prompt_construction [where request = "\<lparr>prompt = ''a bakery <b>'', style = ''retro''\<rparr>"
      and other = "\<lparr>prompt = ''a bakery <b>'', style = ''retro''\<rparr>"] h o
  have "style_desc \<lparr>prompt = ''a bakery <b>'', style = ''retro''\<rparr> = []"
    and "contains (prompt \<lparr>prompt = ''a bakery <b>'', style = ''retro''\<rparr>)
        (user_prompt \<lparr>prompt = ''a bakery <b>'', style = ''retro''\<rparr>)"
    and "user_prompt \<lparr>prompt = ''a bakery <b>'', style = ''retro''\<rparr> =
            ''Create a stunning '' @ style \<lparr>prompt = ''a bakery <b>'', style = ''retro''\<rparr>
            @ '' style website : '' @ prompt \<lparr>prompt = ''a bakery <b>'', style = ''retro''\<rparr>
            @ ''. Make it visually impressive with rich CSS styling, beautiful colors, and modern design. NO external images - use colored divs and gradients for visual elements.''"
    by blast+
  with h show ?thesis by simp
qed


section \<open>The extraction always gives a pair\<close>

text \<open>
  C9: for every raw text the extraction raises neither \<^verbatim>\<open>IndexError\<close> nor
  \<^verbatim>\<open>ValueError\<close>: every index taken is below the length of the list that the split
  made. It gives a pair of fragments, and a response whose text can be read is answered
  with that pair, never through the exception handler.
\<close>

theorem extraction_never_fails:
  "\<exists>h c. extract_fragments content = Inr (h, c)
     \<and> respond (GenerateContentResponse (Inr content)) tr =
         (Inr \<lparr>html = h, css = c, success = True,
               message = ''Website generated successfully''\<rparr>,
          tr @ [Print_content_length (length content),
                Print_parsed_lengths (length h) (length c)])"
proof -
  have "\<exists>h c. extract_fragments content = Inr (h, c)"
  proof (cases "contains ''HTML:'' content \<and> contains ''CSS:'' content")
    case True
    then obtain a b where ab: "sections content = Inr (a, b)"
      using sections_total by blast
    obtain h where h: "from_section ''```html'' a = Inr h"
      using from_section_total [of "''```html''" a] by auto
    obtain c where c: "from_section ''```css'' b = Inr c"
      using from_section_total [of "''```css''" b] by auto
    from True ab h c show ?thesis
      by (simp add: extract_fragments_def bind_err_def)
  next
    case False
    obtain h where h: "(if contains ''```html'' content
        then fence_body ''```html'' content else Inr []) = Inr h"
      using guarded_fence_body_total [of "''```html''" content "[]"] by auto
    obtain c where c: "(if contains ''```css'' content
        then fence_body ''```css'' content else Inr []) = Inr c"
      using guarded_fence_body_total [of "''```css''" content "[]"] by auto
    show ?thesis
      by (simp add: extract_fragments_def bind_err_def False h c)
  qed
  then obtain h c where "extract_fragments content = Inr (h, c)" by blast
  then show ?thesis by (simp add: respond_def)
qed

theorem extraction_never_fails_witness:
  "\<exists>h c. extract_fragments ''HTML:```html a```CSS:```css b```'' = Inr (h, c)
     \<and> respond (GenerateContentResponse (Inr ''HTML:```html a```CSS:```css b```'')) [] =
         (Inr \<lparr>html = h, css = c, success = True,
               message = ''Website generated successfully''\<rparr>,
          [Print_content_length (length ''HTML:```html a```CSS:```css b```''),
           Print_parsed_lengths (length h) (length c)])"
  using extraction_never_fails [of "''HTML:```html a```CSS:```css b```''" "[]"] by simp


section \<open>The branch for a missing response\<close>

text \<open>
  C10: the loop over the four candidates ends in one of three ways: by \<^verbatim>\<open>break\<close> with
  a response set, which is returned; by a raised error that is not transient; or with
  the list exhausted and a transient last error recorded, which gives the 503. So the
  status 500 with detail \<^verbatim>\<open>Failed to generate content\<close> is never the outcome.
\<close>

theorem no_response_branch_unreachable:
  "fst (resolve P up ps) \<noteq> Inl (HTTPException 500 ''Failed to generate content'')
   \<and> (case try_models P up models_to_try (initial_state ps) of
        (Break, st) \<Rightarrow> (\<exists>r. response st = Some r \<and> resolve P up ps = (Inr r, st))
      | (Raised e, st) \<Rightarrow>
          \<not> is_transient (str e) \<and> resolve P up ps = (Inl (Uncaught e), st)
      | (Exhausted, st) \<Rightarrow>
          (\<exists>e. last_error st = Some e \<and> is_transient (str e)
             \<and> resolve P up ps =
                 (Inl (HTTPException 503
                    (''All Gemini models are currently unavailable. Please try again in a few moments. Last error: ''
                     @ str e)), st)))"
proof -
  obtain ex st where run: "try_models P up models_to_try (initial_state ps) = (ex, st)"
    by (cases "try_models P up models_to_try (initial_state ps)")
  have ne: "models_to_try \<noteq> []" by (simp add: models_to_try_def)
  from try_models_exits [OF run] ne
  have b: "ex = Break \<Longrightarrow> response st \<noteq> None"
    and r: "\<And>e. ex = Raised e \<Longrightarrow> \<not> is_transient (str e)"
    and x: "ex = Exhausted \<Longrightarrow> \<exists>e. last_error st = Some e \<and> is_transient (str e)"
    by auto
  show ?thesis
  proof (cases ex)
    case Break
    with b obtain r where "response st = Some r" by auto
    with run Break show ?thesis by (simp add: resolve_def check_response_def)
  next
    case Exhausted
    with x obtain e where "last_error st = Some e" "is_transient (str e)" by auto
    with run Exhausted show ?thesis by (simp add: resolve_def)
  next
    case (Raised e)
    with r run show ?thesis by (simp add: resolve_def)
  qed
qed

theorem no_response_branch_unreachable_witness:
  "fst (resolve third_answers ''a page'' 0)
     \<noteq> Inl (HTTPException 500 ''Failed to generate content'')
   \<and> fst (resolve unknown_models ''a page'' 0)
     \<noteq> Inl (HTTPException 500 ''Failed to generate content'')
   \<and> fst (resolve bad_key ''a page'' 0)
     \<noteq> Inl (HTTPException 500 ''Failed to generate content'')"
  using no_response_branch_unreachable [of third_answers "''a page''" 0]
    no_response_branch_unreachable [of unknown_models "''a page''" 0]
    no_response_branch_unreachable [of bad_key "''a page''" 0]
  by blast

end
